theory Spec2Isabelle
  imports Main "HOL-Library.AList" "HOL-Library.Char_ord" "HOL-Library.List_Lexorder"
begin

section \<open>Python strings\<close>

text \<open>
  A Python \<^verbatim>\<open>str\<close> is a sequence of Unicode code points, so it is modelled as the list
  of the integers that \<^verbatim>\<open>ord\<close> gives (\<open>char\<close> has only 256 values and cannot hold
  U+0115).  \<open>str\<close> turns an ASCII literal into such a list.
\<close>

type_synonym ustr = "int list"

definition str :: "string \<Rightarrow> ustr" where
  "str s = map of_char s"

definition TAB :: int where "TAB = 9"
definition NL :: int where "NL = 10"
definition CR :: int where "CR = 13"
definition SP :: int where "SP = 32"
definition LT :: int where "LT = 60"
definition GT :: int where "GT = 62"

text \<open>
  \<^verbatim>\<open>str.isspace\<close>, \<^verbatim>\<open>str.strip()\<close> and the regular expression class \<^verbatim>\<open>\s\<close> (on a
  \<^verbatim>\<open>str\<close> pattern) share one notion of white space in CPython.
\<close>

definition isspace :: "int \<Rightarrow> bool" where
  "isspace c \<longleftrightarrow>
     (9 \<le> c \<and> c \<le> 13) \<or> (28 \<le> c \<and> c \<le> 32) \<or> c = 133 \<or> c = 160 \<or> c = 5760 \<or>
     (8192 \<le> c \<and> c \<le> 8202) \<or> c = 8232 \<or> c = 8233 \<or> c = 8239 \<or> c = 8287 \<or> c = 12288"

text \<open>\<^verbatim>\<open>s.strip()\<close>\<close>

definition strip :: "ustr \<Rightarrow> ustr" where
  "strip s = rev (dropWhile isspace (rev (dropWhile isspace s)))"

text \<open>\<^verbatim>\<open>s[i:i+n] == sub\<close> with \<open>n = len(sub)\<close>\<close>

definition slice_is :: "ustr \<Rightarrow> nat \<Rightarrow> ustr \<Rightarrow> bool" where
  "slice_is s i sub \<longleftrightarrow> take (length sub) (drop i s) = sub"

text \<open>\<^verbatim>\<open>s.find(sub, pos)\<close>: the lowest index from \<open>pos\<close> on, \<open>None\<close> for Python's \<open>-1\<close>.\<close>

primrec find_idx :: "ustr \<Rightarrow> ustr \<Rightarrow> nat \<Rightarrow> nat option" where
  "find_idx sub [] i = (if sub = [] then Some i else None)"
| "find_idx sub (c # cs) i =
     (if take (length sub) (c # cs) = sub then Some i else find_idx sub cs (Suc i))"

definition find_from :: "ustr \<Rightarrow> ustr \<Rightarrow> nat \<Rightarrow> nat option" where
  "find_from sub s pos = (if pos \<le> length s then find_idx sub (drop pos s) pos else None)"

text \<open>\<^verbatim>\<open>sub in s\<close>\<close>

definition contains :: "ustr \<Rightarrow> ustr \<Rightarrow> bool" where
  "contains sub s \<longleftrightarrow> find_from sub s 0 \<noteq> None"

text \<open>\<^verbatim>\<open>sep.join(xs)\<close>\<close>

fun join :: "ustr \<Rightarrow> ustr list \<Rightarrow> ustr" where
  "join sep [] = []"
| "join sep [x] = x"
| "join sep (x # y # ys) = x @ sep @ join sep (y # ys)"

text \<open>
  \<^verbatim>\<open>s.replace(old, new)\<close>: non-overlapping occurrences, left to right.  With an empty
  \<open>old\<close> Python puts \<open>new\<close> before every character and at the end.
\<close>

function replace :: "ustr \<Rightarrow> ustr \<Rightarrow> ustr \<Rightarrow> ustr" where
  "replace old new [] = (if old = [] then new else [])"
| "replace old new (c # cs) =
     (if old = [] then new @ c # replace old new cs
      else if take (length old) (c # cs) = old
        then new @ replace old new (drop (length old) (c # cs))
        else c # replace old new cs)"
  by pat_completeness auto
termination
  by (relation "measure (\<lambda>(old, new, s). length s)") (auto simp: Suc_diff_le intro: Suc_leI)

section \<open>The extractor: \<^verbatim>\<open>gcide2tab.py\<close>\<close>

subsection \<open>\<^verbatim>\<open>strip_tags\<close> and white-space collapsing\<close>

text \<open>
  \<^verbatim>\<open>re.sub(r'<[^>]+>', '', text)\<close>.  At a \<open><\<close> the greedy class takes every character
  up to the next \<open>>\<close>; the match needs at least one such character and the \<open>>\<close>
  itself.  Giving characters back cannot help, the character after a shorter run is
  not \<open>>\<close>.  Where nothing matches the character is kept and the scan moves on by one.
\<close>

function strip_tags :: "ustr \<Rightarrow> ustr" where
  "strip_tags [] = []"
| "strip_tags (c # cs) =
     (if c = LT \<and> takeWhile (\<lambda>x. x \<noteq> GT) cs \<noteq> [] \<and> dropWhile (\<lambda>x. x \<noteq> GT) cs \<noteq> []
      then strip_tags (tl (dropWhile (\<lambda>x. x \<noteq> GT) cs))
      else c # strip_tags cs)"
  by pat_completeness auto
termination
proof (relation "measure length", goal_cases)
  case 1
  show ?case by simp
next
  case (2 c cs)
  have "length (tl (dropWhile (\<lambda>x. x \<noteq> GT) cs)) \<le> length cs"
    using length_dropWhile_le [of "\<lambda>x. x \<noteq> GT" cs] by simp
  then show ?case by simp
next
  case (3 c cs)
  show ?case by simp
qed

text \<open>\<^verbatim>\<open>re.sub(r'\s+', ' ', text)\<close>\<close>

function collapse_ws :: "ustr \<Rightarrow> ustr" where
  "collapse_ws [] = []"
| "collapse_ws (c # cs) =
     (if isspace c then SP # collapse_ws (dropWhile isspace cs) else c # collapse_ws cs)"
  by pat_completeness auto
termination
proof (relation "measure length", goal_cases)
  case 1
  show ?case by simp
next
  case (2 c cs)
  show ?case using length_dropWhile_le [of isspace cs] by simp
next
  case (3 c cs)
  show ?case by simp
qed

subsection \<open>\<^verbatim>\<open>extract_def_content\<close>\<close>

definition DEF_OPEN :: ustr where "DEF_OPEN = str ''<def>''"
definition DEF_CLOSE :: ustr where "DEF_CLOSE = str ''</def>''"

text \<open>\<^verbatim>\<open>s[begin:i]\<close>, where \<open>begin\<close> may still be \<^verbatim>\<open>None\<close> (a slice from the start).\<close>

definition slice_from :: "nat option \<Rightarrow> nat \<Rightarrow> ustr \<Rightarrow> ustr" where
  "slice_from begin i s = (case begin of None \<Rightarrow> take i s | Some b \<Rightarrow> drop b (take i s))"

text \<open>
  The \<^verbatim>\<open>while i < len(entry_text)\<close> loop with its three variables \<open>i\<close>, \<open>depth\<close> and
  \<open>begin\<close>.  The result is the pair the function returns: the content (\<open>None\<close> when the
  scan runs off the end) and the end position.
\<close>

function edc_loop :: "ustr \<Rightarrow> nat \<Rightarrow> nat \<Rightarrow> int \<Rightarrow> nat option \<Rightarrow> ustr option \<times> nat" where
  "edc_loop s start i depth begin =
     (if i < length s then
        (if slice_is s i DEF_OPEN
         then edc_loop s start (i + 5) (depth + 1) (if depth = 0 then Some (i + 5) else begin)
         else if slice_is s i DEF_CLOSE
         then (if depth - 1 = 0 then (Some (slice_from begin i s), i + 6)
               else edc_loop s start (i + 6) (depth - 1) begin)
         else edc_loop s start (i + 1) depth begin)
      else (None, start))"
  by pat_completeness auto
termination
  by (relation "measure (\<lambda>(s, start, i, depth, begin). length s - i)") auto

declare edc_loop.simps [simp del]

definition extract_def_content :: "ustr \<Rightarrow> nat \<Rightarrow> ustr option \<times> nat" where
  "extract_def_content entry_text start = edc_loop entry_text start start 0 None"

subsection \<open>\<^verbatim>\<open>extract_entry\<close>\<close>

text \<open>One definition span made plain: tags stripped, white space collapsed, trimmed.\<close>

definition plain_of :: "ustr \<Rightarrow> ustr" where
  "plain_of def_content = strip (collapse_ws (strip_tags def_content))"

text \<open>
  Lines 85 to 89: a span that was found is made plain and kept unless it is empty.
\<close>

definition add_def :: "ustr option \<Rightarrow> ustr list \<Rightarrow> ustr list" where
  "add_def def_content defs =
     (case def_content of
        None \<Rightarrow> defs
      | Some c \<Rightarrow> (if plain_of c \<noteq> [] then defs @ [plain_of c] else defs))"

text \<open>
  The \<^verbatim>\<open>while True\<close> loop that collects \<open>defs\<close>.  Nothing in the source bounds it, so it
  is a partial function: \<open>None\<close> means the loop does not return.
\<close>

partial_function (option) collect_defs :: "ustr \<Rightarrow> nat \<Rightarrow> ustr list \<Rightarrow> ustr list option" where
  "collect_defs entry_text pos defs =
     (if find_from DEF_OPEN entry_text pos = None then Some defs
      else collect_defs entry_text
             (snd (extract_def_content entry_text (the (find_from DEF_OPEN entry_text pos))))
             (add_def (fst (extract_def_content entry_text (the (find_from DEF_OPEN entry_text pos))))
                defs))"

declare collect_defs.simps [code]

text \<open>
  \<^verbatim>\<open>re.search(r'<hw>([^<]*)</hw>', entry_text)\<close>, giving group 1 of the leftmost match.
  The class cannot take a \<open><\<close>, and the closing tag starts with one, so at a given
  \<^verbatim>\<open><hw>\<close> the only candidate is the longest run without \<open><\<close>.
\<close>

definition HW_OPEN :: ustr where "HW_OPEN = str ''<hw>''"
definition HW_CLOSE :: ustr where "HW_CLOSE = str ''</hw>''"

primrec hw_search :: "ustr \<Rightarrow> ustr option" where
  "hw_search [] = None"
| "hw_search (c # cs) =
     (if take 4 (c # cs) = HW_OPEN \<and>
         take 5 (dropWhile (\<lambda>x. x \<noteq> LT) (drop 4 (c # cs))) = HW_CLOSE
      then Some (takeWhile (\<lambda>x. x \<noteq> LT) (drop 4 (c # cs)))
      else hw_search cs)"

text \<open>
  \<^verbatim>\<open>decode_entities\<close>.  \<^verbatim>\<open>html.unescape\<close> belongs to Python's standard library, not to
  this repository; it is the parameter \<open>unescape\<close> of everything that decodes.  The
  replacement table is the one of the source, in its order.
\<close>

definition replacements :: "(ustr \<times> ustr) list" where
  "replacements =
     [(str ''&ebreve_;'', [277]),
      (str ''&emacr;'', [275]),
      (str ''&ocirc;'', [244]),
      (str ''&eitalic_;'', [233]),
      (str ''&omacr;'', [333]),
      (str ''&ubreve_;'', [365]),
      (str ''&ibreve_;'', [301]),
      (str ''&abreve_;'', [259])]"

definition decode_entities :: "(ustr \<Rightarrow> ustr) \<Rightarrow> ustr \<Rightarrow> ustr" where
  "decode_entities unescape t =
     foldl (\<lambda>acc (ent, ch). replace ent ch acc) (unescape t) replacements"

text \<open>Lines 95 to 99: the definitions joined, decoded and made one line.\<close>

definition one_line :: "ustr \<Rightarrow> ustr" where
  "one_line d = strip (collapse_ws (replace [CR] [SP] (replace [NL] [SP] (replace [TAB] [SP] d))))"

definition definition_of :: "(ustr \<Rightarrow> ustr) \<Rightarrow> ustr list \<Rightarrow> ustr" where
  "definition_of unescape defs = one_line (decode_entities unescape (join (str ''; '') defs))"

text \<open>
  \<^verbatim>\<open>extract_entry\<close>.  The outer \<open>option\<close> is whether the call returns at all, the inner
  one is Python's \<^verbatim>\<open>None\<close> against a (headword, definition) pair.
\<close>

definition extract_entry :: "(ustr \<Rightarrow> ustr) \<Rightarrow> ustr \<Rightarrow> (ustr \<times> ustr) option option" where
  "extract_entry unescape entry_text =
     (case hw_search entry_text of
        None \<Rightarrow> Some None
      | Some span \<Rightarrow>
          (case collect_defs entry_text 0 [] of
             None \<Rightarrow> None
           | Some defs \<Rightarrow>
               (if defs = [] then Some None
                else Some (Some (decode_entities unescape (strip span),
                                 definition_of unescape defs)))))"

subsection \<open>\<^verbatim>\<open>process_file\<close>\<close>

text \<open>
  \<^verbatim>\<open>re.split(r'<p>\s*<ent>', text)\<close>: the pieces between the matches.  \<open>cur\<close> is the piece
  being read.
\<close>

definition P_OPEN :: ustr where "P_OPEN = str ''<p>''"
definition ENT_OPEN :: ustr where "ENT_OPEN = str ''<ent>''"

definition ent_start :: "ustr \<Rightarrow> bool" where
  "ent_start s \<longleftrightarrow> take 3 s = P_OPEN \<and> take 5 (dropWhile isspace (drop 3 s)) = ENT_OPEN"

definition after_ent_start :: "ustr \<Rightarrow> ustr" where
  "after_ent_start s = drop 5 (dropWhile isspace (drop 3 s))"

function split_ent :: "ustr \<Rightarrow> ustr \<Rightarrow> ustr list" where
  "split_ent cur [] = [cur]"
| "split_ent cur (c # cs) =
     (if ent_start (c # cs) then cur # split_ent [] (after_ent_start (c # cs))
      else split_ent (cur @ [c]) cs)"
  by pat_completeness auto
termination
proof (relation "measure (\<lambda>(cur, s). length s)", goal_cases)
  case 1
  show ?case by simp
next
  case (2 cur c cs)
  have "length (dropWhile isspace (drop 3 (c # cs))) \<le> length (drop 3 (c # cs))"
    by (rule length_dropWhile_le)
  then show ?case by (simp add: after_ent_start_def)
next
  case (3 cur c cs)
  show ?case by simp
qed

text \<open>
  The dictionary \<open>out_entries\<close>.  A Python \<^verbatim>\<open>dict\<close> keeps its keys in insertion order and
  assigning to a key that is present keeps its place, which is what the association
  list does.
\<close>

type_synonym entries = "(ustr \<times> ustr) list"

definition merge_entry :: "ustr \<Rightarrow> ustr \<Rightarrow> entries \<Rightarrow> entries" where
  "merge_entry headword definition out_entries =
     (case map_of out_entries headword of
        None \<Rightarrow> out_entries @ [(headword, definition)]
      | Some old \<Rightarrow> AList.update headword (old @ str ''; '' @ definition) out_entries)"

text \<open>The \<^verbatim>\<open>for block in blocks\<close> loop; \<open>None\<close> when a call of \<open>extract_entry\<close> does not return.\<close>

fun process_blocks :: "(ustr \<Rightarrow> ustr) \<Rightarrow> ustr list \<Rightarrow> entries \<Rightarrow> entries option" where
  "process_blocks unescape [] out_entries = Some out_entries"
| "process_blocks unescape (block # blocks) out_entries =
     (if \<not> contains HW_OPEN block \<or> \<not> contains DEF_OPEN block
      then process_blocks unescape blocks out_entries
      else (case extract_entry unescape (str ''<p><ent>'' @ block) of
              None \<Rightarrow> None
            | Some None \<Rightarrow> process_blocks unescape blocks out_entries
            | Some (Some (headword, definition)) \<Rightarrow>
                process_blocks unescape blocks (merge_entry headword definition out_entries)))"

text \<open>\<^verbatim>\<open>process_file\<close>, from the text that \<^verbatim>\<open>read_text\<close> returned.\<close>

definition process_file :: "(ustr \<Rightarrow> ustr) \<Rightarrow> ustr \<Rightarrow> entries \<Rightarrow> entries option" where
  "process_file unescape text out_entries =
     process_blocks unescape (split_ent [] text) out_entries"

subsection \<open>The file system\<close>

text \<open>
  A path is the list of its components, and \<^verbatim>\<open>Path.parent\<close> is \<open>butlast\<close>.  The state of
  the file system is the set of directories and the text of each regular file, as
  \<^verbatim>\<open>read_text\<close> returns it and as \<^verbatim>\<open>write\<close> stores it.  The empty path is the current
  directory, which is always there.  Permissions and disk space are not modelled.
\<close>

type_synonym path = "string list"

record filesys =
  dirs :: "path set"
  files :: "path \<Rightarrow> ustr option"

definition is_dir :: "filesys \<Rightarrow> path \<Rightarrow> bool" where
  "is_dir fs p \<longleftrightarrow> p = [] \<or> p \<in> dirs fs"

definition exists_path :: "filesys \<Rightarrow> path \<Rightarrow> bool" where
  "exists_path fs p \<longleftrightarrow> is_dir fs p \<or> files fs p \<noteq> None"

definition ancestors_and_self :: "path \<Rightarrow> path list" where
  "ancestors_and_self p = map (\<lambda>n. take n p) [1..<Suc (length p)]"

text \<open>
  \<^verbatim>\<open>p.mkdir(parents=True, exist_ok=True)\<close>: every missing directory on the way is made;
  a regular file on the way makes the call raise, with nothing made (\<open>None\<close>).
\<close>

definition mkdir_parents :: "filesys \<Rightarrow> path \<Rightarrow> filesys option" where
  "mkdir_parents fs p =
     (if \<exists>q \<in> set (ancestors_and_self p). files fs q \<noteq> None then None
      else Some (fs\<lparr>dirs := dirs fs \<union> set (ancestors_and_self p)\<rparr>))"

text \<open>
  \<^verbatim>\<open>open(p, 'w')\<close> followed by the writes and the close of the \<^verbatim>\<open>with\<close> block: the file
  holds exactly what was written.  Opening a directory raises (\<open>None\<close>).
\<close>

definition write_file :: "filesys \<Rightarrow> path \<Rightarrow> ustr \<Rightarrow> filesys option" where
  "write_file fs p content =
     (if is_dir fs p then None else Some (fs\<lparr>files := (files fs)(p \<mapsto> content)\<rparr>))"

subsection \<open>\<^verbatim>\<open>main\<close> of the extractor\<close>

definition letters :: string where
  "letters = ''abcdefghijklmnopqrstuvwxyz''"

definition letter_file :: "path \<Rightarrow> char \<Rightarrow> path" where
  "letter_file xml_dir c = xml_dir @ [''gcide_'' @ [c] @ ''.xml'']"

text \<open>
  The loop over the sorted letter files.  \<^verbatim>\<open>read_text\<close> raises on a path that is not a
  regular file (\<open>Inl\<close>); \<open>None\<close> is a call of \<open>process_file\<close> that does not return.
\<close>

datatype py_error = IsADirectoryError

fun process_files ::
  "(ustr \<Rightarrow> ustr) \<Rightarrow> filesys \<Rightarrow> path list \<Rightarrow> entries \<Rightarrow> (py_error + entries) option" where
  "process_files unescape fs [] entries = Some (Inr entries)"
| "process_files unescape fs (f # rest) entries =
     (case files fs f of
        None \<Rightarrow> Some (Inl IsADirectoryError)
      | Some text \<Rightarrow>
          (case process_file unescape text entries of
             None \<Rightarrow> None
           | Some entries' \<Rightarrow> process_files unescape fs rest entries'))"

text \<open>Line 162: \<^verbatim>\<open>h = headword.replace('\t', ' ').replace('\n', ' ').strip()\<close>\<close>

definition hw_line :: "ustr \<Rightarrow> ustr" where
  "hw_line headword = strip (replace [NL] [SP] (replace [TAB] [SP] headword))"

text \<open>The four \<^verbatim>\<open>out.write\<close> calls for one headword, appended to what was written so far.\<close>

definition write_entry :: "entries \<Rightarrow> ustr \<Rightarrow> ustr \<Rightarrow> ustr" where
  "write_entry entries out headword =
     out @ hw_line headword @ [TAB] @ the (map_of entries headword) @ [NL]"

definition write_entries :: "entries \<Rightarrow> ustr" where
  "write_entries entries = foldl (write_entry entries) [] (sort (map fst entries))"

text \<open>
  \<^verbatim>\<open>main\<close>, from the two paths it computes from \<^verbatim>\<open>sys.argv\<close>.  The result is the exit
  status of the process with the file system it leaves (an uncaught exception ends
  Python with status 1), or \<open>None\<close> when the run does not end.  What is printed is left
  out.
\<close>

definition main_extract ::
  "(ustr \<Rightarrow> ustr) \<Rightarrow> filesys \<Rightarrow> path \<Rightarrow> path \<Rightarrow> (nat \<times> filesys) option" where
  "main_extract unescape fs xml_dir output_path =
     (if \<not> is_dir fs xml_dir then Some (1, fs)
      else
        (case mkdir_parents fs (butlast output_path) of
           None \<Rightarrow> Some (1, fs)
         | Some fs1 \<Rightarrow>
             (let letter_files = filter (exists_path fs1) (map (letter_file xml_dir) letters)
              in if letter_files = [] then Some (1, fs1)
                 else
                   (case process_files unescape fs1 (sort letter_files) [] of
                      None \<Rightarrow> None
                    | Some (Inl e) \<Rightarrow> Some (1, fs1)
                    | Some (Inr entries) \<Rightarrow>
                        (case write_file fs1 output_path (write_entries entries) of
                           None \<Rightarrow> Some (1, fs1)
                         | Some fs2 \<Rightarrow> Some (0, fs2))))))"

section \<open>The merger: \<^verbatim>\<open>merge_gcide_with_characters.py\<close>\<close>

text \<open>
  \<^verbatim>\<open>s.splitlines()\<close>: the line boundaries of Python, with \<^verbatim>\<open>\r\n\<close> as one boundary, and
  no empty last line after a final boundary.
\<close>

definition islinebreak :: "int \<Rightarrow> bool" where
  "islinebreak c \<longleftrightarrow>
     (10 \<le> c \<and> c \<le> 13) \<or> (28 \<le> c \<and> c \<le> 30) \<or> c = 133 \<or> c = 8232 \<or> c = 8233"

definition after_break :: "ustr \<Rightarrow> ustr" where
  "after_break s =
     (case s of
        [] \<Rightarrow> []
      | b # r \<Rightarrow> (if b = CR \<and> take 1 r = [NL] then tl r else r))"

function splitlines :: "ustr \<Rightarrow> ustr list" where
  "splitlines s =
     (if s = [] then []
      else if dropWhile (\<lambda>c. \<not> islinebreak c) s = [] then [s]
      else takeWhile (\<lambda>c. \<not> islinebreak c) s #
           splitlines (after_break (dropWhile (\<lambda>c. \<not> islinebreak c) s)))"
  by pat_completeness auto
termination
proof (relation "measure length", goal_cases)
  case 1
  show ?case by simp
next
  case (2 s)
  obtain b r where br: "dropWhile (\<lambda>c. \<not> islinebreak c) s = b # r"
    using 2 by (cases "dropWhile (\<lambda>c. \<not> islinebreak c) s") auto
  have "length (b # r) \<le> length s"
    using length_dropWhile_le [of "\<lambda>c. \<not> islinebreak c" s] br by simp
  moreover have "length (after_break (b # r)) \<le> length r"
    by (simp add: after_break_def)
  ultimately show ?case using br by simp
qed

declare splitlines.simps [simp del]

text \<open>
  The registry \<^verbatim>\<open>BOOK_CONFIG\<close>: book folder, then the character file name and the basename
  of the combined output.
\<close>

definition BOOK_CONFIG :: "(string \<times> string \<times> string) list" where
  "BOOK_CONFIG =
     [(''speaker-for-the-dead'', ''speaker-characters.txt'', ''speaker-characters-and-gcide'')]"

definition CHAR_TAG :: ustr where "CHAR_TAG = str ''[Character] ''"

text \<open>Lines 80, 84 and 85: how the two files are read into lines.\<close>

definition read_gcide_lines :: "ustr \<Rightarrow> ustr list" where
  "read_gcide_lines text = splitlines (strip text)"

definition read_char_lines :: "ustr \<Rightarrow> ustr list" where
  "read_char_lines text = filter (\<lambda>ln. strip ln \<noteq> []) (splitlines (strip text))"

text \<open>
  The two \<^verbatim>\<open>for\<close> loops inside the \<^verbatim>\<open>with\<close> block, each write appended to what was written
  so far.  \<^verbatim>\<open>ln.split('\t', 1)\<close> cuts at the first tab.
\<close>

definition write_gcide_line :: "ustr \<Rightarrow> ustr \<Rightarrow> ustr" where
  "write_gcide_line out ln = out @ ln @ [NL]"

definition write_char_line :: "ustr \<Rightarrow> ustr \<Rightarrow> ustr" where
  "write_char_line out ln =
     (if TAB \<in> set ln
      then out @ takeWhile (\<lambda>c. c \<noteq> TAB) ln @ [TAB] @ CHAR_TAG @
             tl (dropWhile (\<lambda>c. c \<noteq> TAB) ln) @ [NL]
      else out @ ln @ [NL])"

definition write_union :: "ustr list \<Rightarrow> ustr list \<Rightarrow> ustr" where
  "write_union gcide_lines char_lines =
     foldl write_char_line (foldl write_gcide_line [] gcide_lines) char_lines"

text \<open>
  \<^verbatim>\<open>main\<close> of the merger up to the end of the \<^verbatim>\<open>with\<close> block (line 104), from \<^verbatim>\<open>sys.argv\<close>
  and the directory \<open>base\<close> of the script.  The status is \<open>Some n\<close> when the process has
  exited with \<open>n\<close> and \<open>None\<close> when it goes on to the packaging tools, which are outside
  this model.
\<close>

definition main_merge :: "string list \<Rightarrow> path \<Rightarrow> filesys \<Rightarrow> nat option \<times> filesys" where
  "main_merge argv base fs =
     (if length argv < 2 then (Some 1, fs)
      else
        (case map_of BOOK_CONFIG (argv ! 1) of
           None \<Rightarrow> (Some 1, fs)
         | Some (char_file_name, output_basename) \<Rightarrow>
             (let gcide_path = base @ [''dictionaries'', ''gcide'', ''gcide.txt''];
                  book_dir = base @ [''dictionaries'', argv ! 1];
                  char_path = book_dir @ [char_file_name];
                  output_path = book_dir @ [output_basename @ ''.txt'']
              in if \<not> exists_path fs gcide_path then (Some 1, fs)
                 else if \<not> exists_path fs char_path then (Some 1, fs)
                 else
                   (case mkdir_parents fs book_dir of
                      None \<Rightarrow> (Some 1, fs)
                    | Some fs1 \<Rightarrow>
                        (case files fs1 gcide_path of
                           None \<Rightarrow> (Some 1, fs1)
                         | Some gcide_text \<Rightarrow>
                             (case files fs1 char_path of
                                None \<Rightarrow> (Some 1, fs1)
                              | Some char_text \<Rightarrow>
                                  (case write_file fs1 output_path
                                          (write_union (read_gcide_lines gcide_text)
                                             (read_char_lines char_text)) of
                                     None \<Rightarrow> (Some 1, fs1)
                                   | Some fs2 \<Rightarrow> (None, fs2))))))))"

section \<open>Notions used in the statements\<close>

definition AMP :: int where "AMP = 38"

text \<open>
  The position \<open>pos\<close> of the collecting loop is stuck when the next \<^verbatim>\<open><def>\<close> has no
  matching \<^verbatim>\<open></def>\<close>.
\<close>

definition stuck :: "ustr \<Rightarrow> nat \<Rightarrow> bool" where
  "stuck s pos \<longleftrightarrow>
     (case find_from DEF_OPEN s pos of
        None \<Rightarrow> False
      | Some idx \<Rightarrow> fst (extract_def_content s idx) = None)"

text \<open>The invariant of the dictionary: no value holds a tab or a newline.\<close>

definition values_one_line :: "entries \<Rightarrow> bool" where
  "values_one_line e \<longleftrightarrow> (\<forall>k v. map_of e k = Some v \<longrightarrow> TAB \<notin> set v \<and> NL \<notin> set v)"

text \<open>
  What the merger writes for one line of the supplementary list, without the final
  newline: the definition tagged when the line has a tab, the line itself otherwise.
\<close>

definition tag_line :: "ustr \<Rightarrow> ustr" where
  "tag_line ln =
     (if TAB \<in> set ln
      then takeWhile (\<lambda>c. c \<noteq> TAB) ln @ [TAB] @ CHAR_TAG @ tl (dropWhile (\<lambda>c. c \<noteq> TAB) ln)
      else ln)"

definition no_break :: "ustr \<Rightarrow> bool" where
  "no_break ln \<longleftrightarrow> list_all (\<lambda>c. \<not> islinebreak c) ln"

text \<open>The definition field of a line of a lexicon file: what follows the first tab.\<close>

definition definition_field :: "ustr \<Rightarrow> ustr" where
  "definition_field ln = tl (dropWhile (\<lambda>c. c \<noteq> TAB) ln)"





subsection \<open>Concrete inputs\<close>

definition unmatched_entry :: ustr where
  "unmatched_entry = str ''<p><ent>x</ent><hw>x</hw><def>abc</p>''"

definition unmatched_fs :: filesys where
  "unmatched_fs =
     \<lparr>dirs = {[''xml'']}, files = [[''xml'', ''gcide_a.xml''] \<mapsto> unmatched_entry]\<rparr>"


definition apple_a :: ustr where
  "apple_a = str ''<p><ent>apple</ent><hw>apple</hw><def>a fruit</def></p>''"

definition apple_b :: ustr where
  "apple_b = str ''<p><ent>apple</ent><hw>apple</hw><def>to polish</def></p>''"

definition apple_fs :: filesys where
  "apple_fs =
     \<lparr>dirs = {[''xml'']},
      files = [[''xml'', ''gcide_a.xml''] \<mapsto> apple_a, [''xml'', ''gcide_b.xml''] \<mapsto> apple_b]\<rparr>"

definition out_path :: path where
  "out_path = [''out'', ''gcide.txt'']"

definition two_spellings :: ustr where
  "two_spellings =
     str ''<p><ent>a</ent><hw>foo'' @ [NL] @ str ''bar</hw><def>one</def></p>'' @
     str ''<p><ent>b</ent><hw>foo bar</hw><def>two</def></p>''"

definition empty_dir_fs :: filesys where
  "empty_dir_fs = \<lparr>dirs = {[''xml'']}, files = Map.empty\<rparr>"

definition dog_base :: ustr where
  "dog_base = str ''dog'' @ [TAB] @ str ''a canine'' @ [NL]"

definition dog_chars :: ustr where
  "dog_chars = str ''dog'' @ [TAB] @ str ''loyal companion of the hero'' @ [NL]"




definition dog_tab_base :: ustr where
  "dog_tab_base = str ''dog'' @ [TAB, NL]"

definition merge_argv :: "string list" where
  "merge_argv = [''merge_gcide_with_characters.py'', ''speaker-for-the-dead'']"

definition dog_fs :: filesys where
  "dog_fs =
     \<lparr>dirs = {[''dictionaries''], [''dictionaries'', ''gcide''],
              [''dictionaries'', ''speaker-for-the-dead'']},
      files =
        [[''dictionaries'', ''gcide'', ''gcide.txt''] \<mapsto> dog_tab_base,
         [''dictionaries'', ''speaker-for-the-dead'', ''speaker-characters.txt''] \<mapsto> dog_chars]\<rparr>"

definition dog_out :: path where
  "dog_out = [''dictionaries'', ''speaker-for-the-dead'', ''speaker-characters-and-gcide.txt'']"

section \<open>Properties of the string functions\<close>


lemma set_strip: "set (strip s) \<subseteq> set s"
proof -
  have "set (dropWhile isspace (rev (dropWhile isspace s))) \<subseteq> set (rev (dropWhile isspace s))"
    by (rule set_dropWhileD [THEN subsetI])
  also have "\<dots> \<subseteq> set s"
    using set_dropWhileD [of _ isspace s] by auto
  finally show ?thesis by (simp add: strip_def)
qed

lemma set_tl_dropWhile: "set (tl (dropWhile P xs)) \<subseteq> set xs"
proof
  fix x assume "x \<in> set (tl (dropWhile P xs))"
  then have "x \<in> set (dropWhile P xs)"
    by (cases "dropWhile P xs") auto
  then show "x \<in> set xs" by (rule set_dropWhileD)
qed

lemma set_strip_tags: "set (strip_tags s) \<subseteq> set s"
proof (induction s rule: strip_tags.induct)
  case 1
  show ?case by simp
next
  case (2 c cs)
  show ?case
  proof (cases "c = LT \<and> takeWhile (\<lambda>x. x \<noteq> GT) cs \<noteq> [] \<and> dropWhile (\<lambda>x. x \<noteq> GT) cs \<noteq> []")
    case True
    then have "set (strip_tags (c # cs)) \<subseteq> set (tl (dropWhile (\<lambda>x. x \<noteq> GT) cs))"
      using 2(1) by simp
    also have "\<dots> \<subseteq> set cs" by (rule set_tl_dropWhile)
    finally show ?thesis by auto
  next
    case False
    then show ?thesis using 2(2) by auto
  qed
qed

lemma set_collapse_ws: "set (collapse_ws s) \<subseteq> insert SP (set s)"
proof (induction s rule: collapse_ws.induct)
  case 1
  show ?case by simp
next
  case (2 c cs)
  show ?case
  proof (cases "isspace c")
    case True
    have "set (dropWhile isspace cs) \<subseteq> set cs"
      using set_dropWhileD [of _ isspace cs] by auto
    with True 2(1) show ?thesis by auto
  next
    case False
    with 2(2) show ?thesis by auto
  qed
qed

lemma set_plain_of: "set (plain_of c) \<subseteq> insert SP (set c)"
  unfolding plain_of_def
  using set_strip [of "collapse_ws (strip_tags c)"] set_collapse_ws [of "strip_tags c"]
    set_strip_tags [of c]
  by blast

lemma set_slice_from: "set (slice_from b i s) \<subseteq> set s"
proof (cases b)
  case None
  then show ?thesis by (auto simp: slice_from_def dest: in_set_takeD)
next
  case (Some n)
  then show ?thesis by (auto simp: slice_from_def dest!: in_set_dropD in_set_takeD)
qed

lemma edc_loop_content:
  "edc_loop s st i d b = (Some c, e) \<Longrightarrow> set c \<subseteq> set s"
proof (induction s st i d b rule: edc_loop.induct)
  case (1 s start i depth bgn)
  show ?case
  proof (cases "i < length s")
    case False
    with 1(4) show ?thesis by (simp add: edc_loop.simps [of s start i])
  next
    case inb: True
    show ?thesis
    proof (cases "slice_is s i DEF_OPEN")
      case True
      with inb 1(1) 1(4) show ?thesis by (simp add: edc_loop.simps [of s start i])
    next
      case nopen: False
      show ?thesis
      proof (cases "slice_is s i DEF_CLOSE")
        case False
        with inb nopen 1(3) 1(4) show ?thesis by (simp add: edc_loop.simps [of s start i])
      next
        case True
        show ?thesis
        proof (cases "depth - 1 = 0")
          case True
          with inb nopen \<open>slice_is s i DEF_CLOSE\<close> 1(4)
          have "c = slice_from bgn i s" by (simp add: edc_loop.simps [of s start i])
          then show ?thesis by (simp add: set_slice_from)
        next
          case False
          with inb nopen \<open>slice_is s i DEF_CLOSE\<close> 1(2) 1(4)
          show ?thesis by (simp add: edc_loop.simps [of s start i])
        qed
      qed
    qed
  qed
qed

lemma edc_loop_none:
  "fst (edc_loop s st i d b) = None \<Longrightarrow> snd (edc_loop s st i d b) = st"
proof (induction s st i d b rule: edc_loop.induct)
  case (1 s start i depth bgn)
  then show ?case
    by (auto simp: edc_loop.simps [of s start i] split: if_splits)
qed


lemma set_add_def:
  "d \<in> set (add_def dc defs) \<Longrightarrow> d \<in> set defs \<or> (\<exists>c. dc = Some c \<and> d = plain_of c)"
  by (auto simp: add_def_def split: option.splits if_splits)

lemma extract_def_content_sub:
  "fst (extract_def_content s idx) = Some c \<Longrightarrow> set c \<subseteq> set s"
  by (cases "edc_loop s idx idx 0 None")
     (auto simp: extract_def_content_def dest: edc_loop_content)

lemma set_add_def_sub:
  assumes "\<forall>d \<in> set defs. set d \<subseteq> insert SP (set s)"
    and "\<And>c. dc = Some c \<Longrightarrow> set c \<subseteq> set s"
  shows "\<forall>d \<in> set (add_def dc defs). set d \<subseteq> insert SP (set s)"
proof
  fix d assume "d \<in> set (add_def dc defs)"
  then have "d \<in> set defs \<or> (\<exists>c. dc = Some c \<and> d = plain_of c)"
    by (rule set_add_def)
  then show "set d \<subseteq> insert SP (set s)"
  proof
    assume "d \<in> set defs"
    with assms(1) show ?thesis by simp
  next
    assume "\<exists>c. dc = Some c \<and> d = plain_of c"
    then obtain c where c: "dc = Some c" and d: "d = plain_of c" by auto
    have "set (plain_of c) \<subseteq> insert SP (set c)" by (rule set_plain_of)
    also have "\<dots> \<subseteq> insert SP (set s)" using assms(2) [OF c] by auto
    finally show ?thesis using d by simp
  qed
qed

lemma collect_defs_sub_aux:
  "collect_defs s pos defs = Some r \<Longrightarrow>
     (\<forall>d \<in> set defs. set d \<subseteq> insert SP (set s)) \<longrightarrow>
     (\<forall>d \<in> set r. set d \<subseteq> insert SP (set s))"
proof (induction rule: collect_defs.raw_induct [rotated 1, consumes 1])
  case (1 f s pos defs r)
  show ?case
  proof
    assume inv: "\<forall>d \<in> set defs. set d \<subseteq> insert SP (set s)"
    show "\<forall>d \<in> set r. set d \<subseteq> insert SP (set s)"
    proof (cases "find_from DEF_OPEN s pos = None")
      case True
      from 1(2) have "defs = r" unfolding if_P [OF True] by simp
      with inv show ?thesis by simp
    next
      case False
      let ?idx = "the (find_from DEF_OPEN s pos)"
      from 1(2)
      have call: "f s (snd (extract_def_content s ?idx))
                    (add_def (fst (extract_def_content s ?idx)) defs) = Some r"
        unfolding if_not_P [OF False] .
      have "\<forall>d \<in> set (add_def (fst (extract_def_content s ?idx)) defs).
              set d \<subseteq> insert SP (set s)"
        using inv by (rule set_add_def_sub) (rule extract_def_content_sub)
      with 1(1) [OF call] show ?thesis by (rule mp)
    qed
  qed
qed

lemma collect_defs_sub:
  "collect_defs s 0 [] = Some r \<Longrightarrow> d \<in> set r \<Longrightarrow> set d \<subseteq> insert SP (set s)"
  using collect_defs_sub_aux [of s 0 "[]" r] by simp

lemma set_join: "set (join sep xs) \<subseteq> set sep \<union> \<Union> (set ` set xs)"
  by (induction sep xs rule: join.induct) auto

lemma hw_search_sub: "hw_search s = Some span \<Longrightarrow> set span \<subseteq> set s"
proof (induction s)
  case Nil
  then show ?case by simp
next
  case (Cons c cs)
  show ?case
  proof (cases "take 4 (c # cs) = HW_OPEN \<and>
      take 5 (dropWhile (\<lambda>x. x \<noteq> LT) (drop 4 (c # cs))) = HW_CLOSE")
    case True
    with Cons.prems have "span = takeWhile (\<lambda>x. x \<noteq> LT) (drop 4 (c # cs))" by simp
    then show ?thesis
      by (auto dest!: set_takeWhileD in_set_dropD)
  next
    case False
    with Cons show ?thesis by auto
  qed
qed

lemma split_ent_sub: "b \<in> set (split_ent cur s) \<Longrightarrow> set b \<subseteq> set cur \<union> set s"
proof (induction cur s rule: split_ent.induct)
  case (1 cur)
  then show ?case by simp
next
  case (2 cur c cs)
  show ?case
  proof (cases "ent_start (c # cs)")
    case True
    have sub: "set (after_ent_start (c # cs)) \<subseteq> set (c # cs)"
      unfolding after_ent_start_def
      by (auto dest!: in_set_dropD set_dropWhileD)
    from True 2(3) have "b = cur \<or> b \<in> set (split_ent [] (after_ent_start (c # cs)))"
      by simp
    then show ?thesis
    proof
      assume "b = cur"
      then show ?thesis by auto
    next
      assume "b \<in> set (split_ent [] (after_ent_start (c # cs)))"
      from 2(1) [OF True this] sub show ?thesis by auto
    qed
  next
    case False
    with 2(3) have "b \<in> set (split_ent (cur @ [c]) cs)" by simp
    from 2(2) [OF False this] show ?thesis by auto
  qed
qed

lemma replace_absent: "old \<noteq> [] \<Longrightarrow> hd old \<notin> set s \<Longrightarrow> replace old new s = s"
proof (induction s)
  case Nil
  then show ?case by simp
next
  case (Cons c cs)
  have "take (length old) (c # cs) \<noteq> old"
  proof
    assume eq: "take (length old) (c # cs) = old"
    from Cons.prems(1) obtain a as where old: "old = a # as" by (cases old) auto
    with eq have "a = c" by simp
    with old Cons.prems(2) show False by simp
  qed
  with Cons show ?case by simp
qed

lemma replacements_absent:
  "AMP \<notin> set t \<Longrightarrow> foldl (\<lambda>acc (ent, ch). replace ent ch acc) t replacements = t"
  by (simp add: replacements_def str_def AMP_def replace_absent)

lemma decode_plain:
  assumes "\<And>s. AMP \<notin> set s \<Longrightarrow> unescape s = s" and "AMP \<notin> set t"
  shows "decode_entities unescape t = t"
  using assms by (simp add: decode_entities_def replacements_absent)

section \<open>Text without an ampersand is decoded to itself\<close>


lemma amp_not_in_literals:
  "AMP \<noteq> SP" "AMP \<notin> set (str ''; '')" "AMP \<notin> set (str ''<p><ent>'')"
  by (simp_all add: AMP_def SP_def str_def)

lemma extract_entry_plain:
  assumes plain: "\<And>t. AMP \<notin> set t \<Longrightarrow> unescape t = t"
    and s: "AMP \<notin> set s"
  shows "extract_entry unescape s = extract_entry (\<lambda>t. t) s"
proof (cases "hw_search s")
  case None
  then show ?thesis by (simp add: extract_entry_def)
next
  case (Some span)
  have span: "AMP \<notin> set (strip span)"
    using hw_search_sub [OF Some] set_strip [of span] s by blast
  have hw: "decode_entities unescape (strip span) = decode_entities (\<lambda>t. t) (strip span)"
    using decode_plain [of unescape, OF plain span] decode_plain [of "\<lambda>t. t", OF _ span]
    by simp
  show ?thesis
  proof (cases "collect_defs s 0 []")
    case None
    with Some show ?thesis by (simp add: extract_entry_def)
  next
    case (Some defs)
    have "\<forall>d \<in> set defs. AMP \<notin> set d"
    proof
      fix d assume "d \<in> set defs"
      from collect_defs_sub [OF Some this] s amp_not_in_literals(1)
      show "AMP \<notin> set d" by auto
    qed
    then have "AMP \<notin> set (join (str ''; '') defs)"
      using set_join [of "str ''; ''" defs] amp_not_in_literals(2) by auto
    then have "decode_entities unescape (join (str ''; '') defs) =
               decode_entities (\<lambda>t. t) (join (str ''; '') defs)"
      using decode_plain [of unescape, OF plain] decode_plain [of "\<lambda>t. t"] by simp
    then have "definition_of unescape defs = definition_of (\<lambda>t. t) defs"
      by (simp add: definition_of_def)
    with hw Some \<open>hw_search s = Some span\<close> show ?thesis
      by (simp add: extract_entry_def)
  qed
qed

lemma process_blocks_plain:
  assumes plain: "\<And>t. AMP \<notin> set t \<Longrightarrow> unescape t = t"
  shows "\<forall>b \<in> set blocks. AMP \<notin> set b \<Longrightarrow>
    process_blocks unescape blocks e = process_blocks (\<lambda>t. t) blocks e"
proof (induction blocks arbitrary: e)
  case Nil
  show ?case by simp
next
  case (Cons b bs)
  from Cons.prems have amp: "AMP \<notin> set (str ''<p><ent>'' @ b)"
    using amp_not_in_literals(3) by simp
  have eq: "extract_entry unescape (str ''<p><ent>'' @ b) =
            extract_entry (\<lambda>t. t) (str ''<p><ent>'' @ b)"
    using plain amp by (rule extract_entry_plain)
  from Cons.prems have rest: "\<And>e'. process_blocks unescape bs e' = process_blocks (\<lambda>t. t) bs e'"
    using Cons.IH by simp
  show ?case by (simp add: eq rest split: option.splits)
qed

lemma process_file_plain:
  assumes plain: "\<And>t. AMP \<notin> set t \<Longrightarrow> unescape t = t" and amp: "AMP \<notin> set body"
  shows "process_file unescape body e = process_file (\<lambda>t. t) body e"
proof -
  have "\<forall>b \<in> set (split_ent [] body). AMP \<notin> set b"
    using split_ent_sub [of _ "[]" body] amp by auto
  with plain show ?thesis
    unfolding process_file_def by (rule process_blocks_plain)
qed

lemma process_files_plain:
  assumes plain: "\<And>t. AMP \<notin> set t \<Longrightarrow> unescape t = t"
    and fs: "\<And>p t. files fs p = Some t \<Longrightarrow> AMP \<notin> set t"
  shows "process_files unescape fs ps e = process_files (\<lambda>t. t) fs ps e"
proof (induction ps arbitrary: e)
  case Nil
  show ?case by simp
next
  case (Cons p ps)
  show ?case
  proof (cases "files fs p")
    case None
    then show ?thesis by simp
  next
    case (Some t)
    have "process_file unescape t e = process_file (\<lambda>t. t) t e"
      using plain fs [OF Some] by (rule process_file_plain)
    with Some Cons.IH show ?thesis by (simp split: option.splits)
  qed
qed

lemma mkdir_parents_files: "mkdir_parents fs p = Some fs1 \<Longrightarrow> files fs1 = files fs"
  by (auto simp: mkdir_parents_def split: if_splits)

lemma main_extract_plain:
  assumes plain: "\<And>t. AMP \<notin> set t \<Longrightarrow> unescape t = t"
    and fs: "\<And>p t. files fs p = Some t \<Longrightarrow> AMP \<notin> set t"
  shows "main_extract unescape fs xml_dir output_path =
         main_extract (\<lambda>t. t) fs xml_dir output_path"
proof (cases "mkdir_parents fs (butlast output_path)")
  case None
  then show ?thesis by (simp add: main_extract_def)
next
  case (Some fs1)
  have "\<And>p t. files fs1 p = Some t \<Longrightarrow> AMP \<notin> set t"
    using fs mkdir_parents_files [OF Some] by simp
  with plain have "\<And>ps e. process_files unescape fs1 ps e = process_files (\<lambda>t. t) fs1 ps e"
    by (rule process_files_plain)
  with Some show ?thesis by (simp add: main_extract_def Let_def)
qed

section \<open>The collecting loop at an unmatched tag\<close>

lemma find_idx_props:
  "find_idx sub s i = Some idx \<Longrightarrow>
     i \<le> idx \<and> idx \<le> i + length s \<and> take (length sub) (drop (idx - i) s) = sub"
proof (induction s arbitrary: i)
  case Nil
  then show ?case by (simp split: if_splits)
next
  case (Cons c cs)
  show ?case
  proof (cases "take (length sub) (c # cs) = sub")
    case True
    with Cons.prems show ?thesis by simp
  next
    case False
    with Cons.prems have "find_idx sub cs (Suc i) = Some idx" by simp
    from Cons.IH [OF this]
    have ih: "Suc i \<le> idx" "idx \<le> Suc i + length cs"
      "take (length sub) (drop (idx - Suc i) cs) = sub"
      by simp_all
    from ih(1) have "idx - i = Suc (idx - Suc i)" by arith
    with ih show ?thesis by simp
  qed
qed

lemma find_idx_here:
  "take (length sub) s = sub \<Longrightarrow> find_idx sub s i = Some i"
  by (cases s) auto

lemma find_from_again:
  assumes "find_from sub s pos = Some idx"
  shows "find_from sub s idx = Some idx"
proof -
  from assms have pos: "pos \<le> length s" and f: "find_idx sub (drop pos s) pos = Some idx"
    by (auto simp: find_from_def split: if_splits)
  from find_idx_props [OF f]
  have "pos \<le> idx" "idx \<le> length s" "take (length sub) (drop (idx - pos) (drop pos s)) = sub"
    using pos by auto
  then have "take (length sub) (drop idx s) = sub" by simp
  then have "find_idx sub (drop idx s) idx = Some idx" by (rule find_idx_here)
  with \<open>idx \<le> length s\<close> show ?thesis by (simp add: find_from_def)
qed

lemma extract_def_content_none:
  "fst (extract_def_content s idx) = None \<Longrightarrow> snd (extract_def_content s idx) = idx"
  unfolding extract_def_content_def by (rule edc_loop_none)

lemma collect_defs_not_stuck:
  "collect_defs s pos defs = Some r \<Longrightarrow> \<not> stuck s pos"
proof (induction rule: collect_defs.raw_induct [rotated 1, consumes 1])
  case (1 f s pos defs r)
  show ?case
  proof
    assume "stuck s pos"
    then obtain idx where idx: "find_from DEF_OPEN s pos = Some idx"
      and none: "fst (extract_def_content s idx) = None"
      by (auto simp: stuck_def split: option.splits)
    from 1(2) have "f s (snd (extract_def_content s idx))
                      (add_def (fst (extract_def_content s idx)) defs) = Some r"
      by (simp add: idx)
    then have "f s idx (add_def (fst (extract_def_content s idx)) defs) = Some r"
      using extract_def_content_none [OF none] by simp
    then have "\<not> stuck s idx" by (rule 1(1))
    moreover have "stuck s idx"
      using find_from_again [OF idx] none by (auto simp: stuck_def split: option.splits)
    ultimately show False by simp
  qed
qed

lemma collect_defs_diverges:
  assumes "find_from DEF_OPEN s pos = Some idx" and "fst (extract_def_content s idx) = None"
  shows "collect_defs s pos defs = None"
proof (cases "collect_defs s pos defs")
  case None
  then show ?thesis .
next
  case (Some r)
  then have "\<not> stuck s pos" by (rule collect_defs_not_stuck)
  with assms show ?thesis by (auto simp: stuck_def split: option.splits)
qed

section \<open>Definitions are one line\<close>


lemma collapse_ws_chars: "c \<in> set (collapse_ws s) \<Longrightarrow> c = SP \<or> \<not> isspace c"
proof (induction s rule: collapse_ws.induct)
  case 1
  then show ?case by simp
next
  case (2 x xs)
  show ?case
  proof (cases "isspace x")
    case True
    with 2(1) 2(3) show ?thesis by auto
  next
    case False
    with 2(2) 2(3) show ?thesis by auto
  qed
qed

lemma one_line_chars: "c \<in> set (one_line d) \<Longrightarrow> c = SP \<or> \<not> isspace c"
  unfolding one_line_def using set_strip collapse_ws_chars by blast

lemma isspace_tab_nl: "isspace TAB" "isspace NL" "TAB \<noteq> SP" "NL \<noteq> SP"
  by (simp_all add: isspace_def TAB_def NL_def SP_def)

lemma one_line_no_tab_nl: "TAB \<notin> set (one_line d) \<and> NL \<notin> set (one_line d)"
  using one_line_chars [of TAB d] one_line_chars [of NL d] isspace_tab_nl by blast

lemma extract_entry_definition:
  "extract_entry unescape s = Some (Some (h, d)) \<Longrightarrow> TAB \<notin> set d \<and> NL \<notin> set d"
  by (auto simp: extract_entry_def definition_of_def one_line_no_tab_nl
           split: option.splits if_splits)

lemma merge_entry_one_line:
  assumes "values_one_line e" and "TAB \<notin> set d \<and> NL \<notin> set d"
  shows "values_one_line (merge_entry h d e)"
proof (cases "map_of e h")
  case None
  then have "merge_entry h d e = e @ [(h, d)]" by (simp add: merge_entry_def)
  with assms show ?thesis
    by (auto simp: values_one_line_def map_add_Some_iff split: if_splits)
next
  case (Some old)
  then have m: "map_of (merge_entry h d e) = (map_of e)(h \<mapsto> old @ str ''; '' @ d)"
    by (simp add: merge_entry_def update_conv')
  from Some assms(1) have "TAB \<notin> set old \<and> NL \<notin> set old"
    by (simp add: values_one_line_def)
  moreover have "TAB \<notin> set (str ''; '') \<and> NL \<notin> set (str ''; '')"
    by (simp add: str_def TAB_def NL_def)
  ultimately show ?thesis
    using assms by (auto simp: values_one_line_def m)
qed

lemma process_blocks_one_line:
  "process_blocks unescape blocks e = Some e' \<Longrightarrow> values_one_line e \<Longrightarrow> values_one_line e'"
proof (induction blocks arbitrary: e)
  case Nil
  then show ?case by simp
next
  case (Cons b bs)
  show ?case
  proof (cases "\<not> contains HW_OPEN b \<or> \<not> contains DEF_OPEN b")
    case True
    with Cons.prems have "process_blocks unescape bs e = Some e'" by auto
    with Cons.IH Cons.prems(2) show ?thesis by blast
  next
    case False
    show ?thesis
    proof (cases "extract_entry unescape (str ''<p><ent>'' @ b)")
      case None
      with False Cons.prems(1) show ?thesis by simp
    next
      case (Some res)
      show ?thesis
      proof (cases res)
        case None
        with Some False Cons.prems have "process_blocks unescape bs e = Some e'" by simp
        with Cons.IH Cons.prems(2) show ?thesis by blast
      next
        case (Some hd)
        obtain h d where hd: "hd = (h, d)" by (cases hd)
        from \<open>extract_entry unescape (str ''<p><ent>'' @ b) = Some res\<close> Some hd
        have ex: "extract_entry unescape (str ''<p><ent>'' @ b) = Some (Some (h, d))" by simp
        with False Cons.prems(1)
        have run: "process_blocks unescape bs (merge_entry h d e) = Some e'" by simp
        have "values_one_line (merge_entry h d e)"
          using Cons.prems(2) extract_entry_definition [OF ex] by (rule merge_entry_one_line)
        with Cons.IH run show ?thesis by blast
      qed
    qed
  qed
qed

lemma process_files_one_line:
  "process_files unescape fs ps e = Some (Inr e') \<Longrightarrow> values_one_line e \<Longrightarrow> values_one_line e'"
proof (induction ps arbitrary: e)
  case Nil
  then show ?case by simp
next
  case (Cons p ps)
  from Cons.prems(1) obtain body e1 where body: "files fs p = Some body"
    and e1: "process_file unescape body e = Some e1"
    and rest: "process_files unescape fs ps e1 = Some (Inr e')"
    by (auto split: option.splits)
  from e1 Cons.prems(2) have "values_one_line e1"
    unfolding process_file_def by (rule process_blocks_one_line)
  with Cons.IH rest show ?case by blast
qed

lemma foldl_write_entry:
  "foldl (write_entry e) acc ks =
     acc @ concat (map (\<lambda>k. hw_line k @ [TAB] @ the (map_of e k) @ [NL]) ks)"
  by (induction ks arbitrary: acc) (simp_all add: write_entry_def)

lemma write_entries_rows:
  "write_entries e =
     concat (map (\<lambda>(h, d). h @ [TAB] @ d @ [NL])
                 (map (\<lambda>k. (hw_line k, the (map_of e k))) (sort (map fst e))))"
  by (simp add: write_entries_def foldl_write_entry comp_def)

lemma replace_single_gone: "a \<noteq> b \<Longrightarrow> a \<notin> set (replace [a] [b] s)"
  by (induction s) auto

lemma replace_single_sub: "set (replace [a] [b] s) \<subseteq> insert b (set s)"
  by (induction s) auto

lemma hw_line_no_tab_nl: "TAB \<notin> set (hw_line h) \<and> NL \<notin> set (hw_line h)"
proof -
  let ?a = "replace [TAB] [SP] h"
  let ?b = "replace [NL] [SP] ?a"
  have a: "TAB \<notin> set ?a" using isspace_tab_nl(3) by (rule replace_single_gone)
  have "NL \<notin> set ?b" using isspace_tab_nl(4) by (rule replace_single_gone)
  moreover have "TAB \<notin> set ?b"
    using replace_single_sub [of NL SP ?a] a isspace_tab_nl(3) by auto
  ultimately show ?thesis
    using set_strip [of ?b] by (auto simp: hw_line_def)
qed

section \<open>The lines the merger writes\<close>


lemma foldl_write_gcide_line:
  "foldl write_gcide_line acc ls = acc @ concat (map (\<lambda>l. l @ [NL]) ls)"
  by (induction ls arbitrary: acc) (simp_all add: write_gcide_line_def)

lemma write_char_line_tag: "write_char_line out ln = out @ tag_line ln @ [NL]"
  by (simp add: write_char_line_def tag_line_def)

lemma foldl_write_char_line:
  "foldl write_char_line acc ls = acc @ concat (map (\<lambda>l. tag_line l @ [NL]) ls)"
  by (induction ls arbitrary: acc) (simp_all add: write_char_line_tag)

lemma write_union_concat:
  "write_union gcide_lines char_lines =
     concat (map (\<lambda>l. l @ [NL]) (gcide_lines @ map tag_line char_lines))"
  by (simp add: write_union_def foldl_write_gcide_line foldl_write_char_line comp_def)

lemma splitlines_Nil: "splitlines [] = []"
  by (simp add: splitlines.simps [of "[]"])

lemma splitlines_no_break: "l \<in> set (splitlines s) \<Longrightarrow> no_break l"
proof (induction s arbitrary: l rule: splitlines.induct)
  case (1 s)
  show ?case
  proof (cases "s = []")
    case True
    with 1(2) show ?thesis by (simp add: splitlines_Nil)
  next
    case ne: False
    show ?thesis
    proof (cases "dropWhile (\<lambda>c. \<not> islinebreak c) s = []")
      case True
      with ne have "splitlines s = [s]"
        by (simp add: splitlines.simps [of s] del: dropWhile_eq_Nil_conv)
      with 1(2) have "l = s" by simp
      moreover from True have "\<forall>c \<in> set s. \<not> islinebreak c"
        by (simp add: dropWhile_eq_Nil_conv)
      ultimately show ?thesis by (simp add: no_break_def list_all_iff)
    next
      case False
      with ne
      have "splitlines s = takeWhile (\<lambda>c. \<not> islinebreak c) s #
              splitlines (after_break (dropWhile (\<lambda>c. \<not> islinebreak c) s))"
        by (simp add: splitlines.simps [of s] del: dropWhile_eq_Nil_conv)
      with 1(2)
      have "l = takeWhile (\<lambda>c. \<not> islinebreak c) s \<or>
            l \<in> set (splitlines (after_break (dropWhile (\<lambda>c. \<not> islinebreak c) s)))"
        by simp
      then show ?thesis
      proof
        assume "l = takeWhile (\<lambda>c. \<not> islinebreak c) s"
        then show ?thesis by (auto simp: no_break_def list_all_iff dest: set_takeWhileD)
      next
        assume "l \<in> set (splitlines (after_break (dropWhile (\<lambda>c. \<not> islinebreak c) s)))"
        with 1(1) [OF ne False] show ?thesis .
      qed
    qed
  qed
qed

lemma islinebreak_NL: "islinebreak NL" "NL \<noteq> CR"
  by (simp_all add: islinebreak_def NL_def CR_def)

lemma splitlines_line:
  assumes "no_break l"
  shows "splitlines (l @ NL # rest) = l # splitlines rest"
proof -
  from assms have tw: "takeWhile (\<lambda>c. \<not> islinebreak c) (l @ NL # rest) = l"
    by (simp add: no_break_def list_all_iff takeWhile_append2 islinebreak_NL)
  from assms have dw: "dropWhile (\<lambda>c. \<not> islinebreak c) (l @ NL # rest) = NL # rest"
    by (simp add: no_break_def list_all_iff dropWhile_append2 islinebreak_NL)
  have "after_break (NL # rest) = rest"
    by (simp add: after_break_def islinebreak_NL)
  with tw dw show ?thesis
    by (simp add: splitlines.simps [of "l @ NL # rest"])
qed

lemma splitlines_concat:
  "\<forall>l \<in> set ls. no_break l \<Longrightarrow> splitlines (concat (map (\<lambda>l. l @ [NL]) ls)) = ls"
proof (induction ls)
  case Nil
  show ?case by (simp add: splitlines_Nil)
next
  case (Cons l ls)
  then show ?case by (simp add: splitlines_line)
qed

lemma CHAR_TAG_no_break: "no_break CHAR_TAG"
  by (simp add: no_break_def list_all_iff CHAR_TAG_def str_def islinebreak_def)

lemma TAB_no_break: "\<not> islinebreak TAB"
  by (simp add: islinebreak_def TAB_def)

lemma tag_line_no_break: "no_break l \<Longrightarrow> no_break (tag_line l)"
proof -
  assume l: "no_break l"
  have "set (takeWhile (\<lambda>c. c \<noteq> TAB) l) \<subseteq> set l"
    by (auto dest: set_takeWhileD)
  moreover have "set (tl (dropWhile (\<lambda>c. c \<noteq> TAB) l)) \<subseteq> set l"
    by (rule set_tl_dropWhile)
  ultimately show ?thesis
    using l CHAR_TAG_no_break TAB_no_break
    by (auto simp: tag_line_def no_break_def list_all_iff)
qed

lemma tag_line_split:
  assumes "TAB \<notin> set h"
  shows "tag_line (h @ TAB # d) = h @ [TAB] @ CHAR_TAG @ d"
proof -
  from assms have h: "\<And>x. x \<in> set h \<Longrightarrow> x \<noteq> TAB" by auto
  have "takeWhile (\<lambda>c. c \<noteq> TAB) (h @ TAB # d) = h"
    using h by (simp add: takeWhile_append2)
  moreover have "dropWhile (\<lambda>c. c \<noteq> TAB) (h @ TAB # d) = TAB # d"
    using h by (simp add: dropWhile_append2)
  ultimately show ?thesis by (simp add: tag_line_def)
qed

lemma read_gcide_lines_no_break: "l \<in> set (read_gcide_lines body) \<Longrightarrow> no_break l"
  unfolding read_gcide_lines_def by (rule splitlines_no_break)

lemma read_char_lines_no_break: "l \<in> set (read_char_lines body) \<Longrightarrow> no_break l"
  unfolding read_char_lines_def by (auto intro: splitlines_no_break)

lemma union_lines:
  "splitlines (write_union (read_gcide_lines g) (read_char_lines c)) =
     read_gcide_lines g @ map tag_line (read_char_lines c)"
proof -
  have "\<forall>l \<in> set (read_gcide_lines g @ map tag_line (read_char_lines c)). no_break l"
    using read_gcide_lines_no_break read_char_lines_no_break tag_line_no_break by auto
  then show ?thesis
    unfolding write_union_concat by (rule splitlines_concat)
qed

section \<open>Blocks that yield no entry\<close>

lemma extract_entry_no_headword:
  "hw_search entry_text = None \<Longrightarrow> extract_entry unescape entry_text = Some None"
  by (simp add: extract_entry_def)

lemma extract_entry_no_definition:
  "collect_defs entry_text 0 [] = Some [] \<Longrightarrow> extract_entry unescape entry_text = Some None"
  by (simp add: extract_entry_def split: option.splits)

section \<open>The two mains\<close>

lemma map_of_key_value:
  "k \<in> set (map fst e) \<Longrightarrow> \<exists>v. map_of e k = Some v"
  by (cases "map_of e k") (auto simp: map_of_eq_None_iff)

lemma written_rows_one_line:
  assumes "values_one_line e"
    and "(h, d) \<in> set (map (\<lambda>k. (hw_line k, the (map_of e k))) (sort (map fst e)))"
  shows "TAB \<notin> set h \<and> NL \<notin> set h \<and> TAB \<notin> set d \<and> NL \<notin> set d"
proof -
  from assms(2) obtain k where k: "k \<in> set (map fst e)"
    and h: "h = hw_line k" and d: "d = the (map_of e k)"
    by auto
  from map_of_key_value [OF k] obtain v where v: "map_of e k = Some v" by blast
  with assms(1) have "TAB \<notin> set v \<and> NL \<notin> set v" by (simp add: values_one_line_def)
  with v d h hw_line_no_tab_nl [of k] show ?thesis by simp
qed

lemma main_extract_success:
  assumes "main_extract unescape fs xml_dir output_path = Some (0, fs')"
  shows "\<exists>fs1 ps e. process_files unescape fs1 ps [] = Some (Inr e) \<and>
           files fs' output_path = Some (write_entries e)"
  using assms
  by (auto simp: main_extract_def Let_def write_file_def
           split: if_splits option.splits sum.splits) blast+

lemma main_extract_failure_keeps_files:
  "main_extract unescape fs xml_dir output_path = Some (Suc n, fs') \<Longrightarrow> files fs' = files fs"
  by (auto simp: main_extract_def Let_def mkdir_parents_files
           split: if_splits option.splits sum.splits)

lemma main_merge_failure_keeps_files:
  "main_merge argv base fs = (Some n, fs') \<Longrightarrow> files fs' = files fs"
  by (auto simp: main_merge_def Let_def mkdir_parents_files
           split: if_splits option.splits prod.splits)

lemma main_merge_unknown_book:
  "length argv < 2 \<or> map_of BOOK_CONFIG (argv ! 1) = None \<Longrightarrow>
     main_merge argv base fs = (Some 1, fs)"
  by (auto simp: main_merge_def)

lemma main_merge_missing_input:
  assumes "2 \<le> length argv"
    and "map_of BOOK_CONFIG (argv ! 1) = Some (char_file_name, output_basename)"
    and "\<not> exists_path fs (base @ [''dictionaries'', ''gcide'', ''gcide.txt'']) \<or>
         \<not> exists_path fs (base @ [''dictionaries'', argv ! 1, char_file_name])"
  shows "main_merge argv base fs = (Some 1, fs)"
  using assms by (auto simp: main_merge_def Let_def)

lemma in_set_index: "x \<in> set xs \<Longrightarrow> \<exists>i < length xs. xs ! i = x"
  by (auto simp: in_set_conv_nth)


section \<open>The order of the letter files\<close>






section \<open>Where the headwords come from\<close>









section \<open>The concrete inputs\<close>

lemma apple_fs_plain: "files apple_fs p = Some t \<Longrightarrow> AMP \<notin> set t"
proof -
  assume a: "files apple_fs p = Some t"
  have "AMP \<notin> set apple_a" by code_simp
  moreover have "AMP \<notin> set apple_b" by code_simp
  ultimately show ?thesis
    using a by (auto simp: apple_fs_def split: if_splits)
qed

lemma apple_run:
  "map_option (\<lambda>(status, fs'). (status, files fs' out_path))
     (main_extract (\<lambda>t. t) apple_fs [''xml''] out_path) =
   Some (0, Some (str ''apple'' @ [TAB] @ str ''a fruit; to polish'' @ [NL]))"
  by code_simp

lemma apple_run_returns:
  "main_extract (\<lambda>t. t) apple_fs [''xml''] out_path =
     Some (0, snd (the (main_extract (\<lambda>t. t) apple_fs [''xml''] out_path)))"
  using apple_run by (cases "main_extract (\<lambda>t. t) apple_fs [''xml''] out_path") auto



section \<open>The claims\<close>

text \<open>
  C1.  The specification says that extracting from a block always ends normally, and
  that a block with an unmatched \<^verbatim>\<open><def>\<close> simply contributes no entry.  On the block
  \<open>unmatched_entry\<close>, whose \<^verbatim>\<open><def>\<close> is never closed, the collecting loop of
  \<open>extract_entry\<close> finds the same tag again and again: \<open>extract_entry\<close> does not return,
  neither does \<open>process_file\<close> on a file that holds this block, and neither does the run
  on a directory that holds this file.
\<close>

theorem unmatched_def_never_returns:
  "extract_entry unescape unmatched_entry = None \<and>
   process_file unescape unmatched_entry [] = None \<and>
   main_extract unescape unmatched_fs [''xml''] out_path = None"
proof -
  have hw: "hw_search unmatched_entry = Some (str ''x'')" by code_simp
  have f: "find_from DEF_OPEN unmatched_entry 0 = Some 25" by code_simp
  have e: "fst (extract_def_content unmatched_entry 25) = None" by code_simp
  have loop: "collect_defs unmatched_entry 0 [] = None"
    using f e by (rule collect_defs_diverges)
  have ex: "extract_entry unescape unmatched_entry = None"
    by (simp add: extract_entry_def hw loop)
  have blocks: "split_ent [] unmatched_entry = [[], str ''x</ent><hw>x</hw><def>abc</p>'']"
    by code_simp
  have c0: "\<not> contains HW_OPEN []" by code_simp
  have c1: "contains HW_OPEN (str ''x</ent><hw>x</hw><def>abc</p>'')" by code_simp
  have c2: "contains DEF_OPEN (str ''x</ent><hw>x</hw><def>abc</p>'')" by code_simp
  have whole: "str ''<p><ent>'' @ str ''x</ent><hw>x</hw><def>abc</p>'' = unmatched_entry"
    by code_simp
  have pf: "process_file unescape unmatched_entry e0 = None" for e0
    by (simp add: process_file_def blocks c0 c1 c2 whole ex)
  let ?fs1 = "unmatched_fs\<lparr>dirs := dirs unmatched_fs \<union> set (ancestors_and_self (butlast out_path))\<rparr>"
  have d: "is_dir unmatched_fs [''xml'']" by code_simp
  have "\<not> (\<exists>q \<in> set (ancestors_and_self (butlast out_path)). files unmatched_fs q \<noteq> None)"
    by code_simp
  then have mk: "mkdir_parents unmatched_fs (butlast out_path) = Some ?fs1"
    by (simp add: mkdir_parents_def)
  have lf: "filter (exists_path ?fs1) (map (letter_file [''xml'']) letters) = [[''xml'', ''gcide_a.xml'']]"
    by code_simp
  have rd: "files unmatched_fs [''xml'', ''gcide_a.xml''] = Some unmatched_entry"
    by (simp add: unmatched_fs_def)
  have "process_files unescape ?fs1 [[''xml'', ''gcide_a.xml'']] [] = None"
    by (simp add: rd pf)
  then have "main_extract unescape unmatched_fs [''xml''] out_path = None"
    by (simp add: main_extract_def d mk lf)
  with ex pf show ?thesis by simp
qed


text \<open>
  C3.  The input directory holds a file for the letter a and a file for the letter b,
  each with one entry for the headword \<^verbatim>\<open>apple\<close>.  With an \<open>unescape\<close> that, like
  \<^verbatim>\<open>html.unescape\<close>, returns a text without \<^verbatim>\<open>&\<close> as it is, the run ends with status 0 and
  the output file is the single line \<^verbatim>\<open>apple<TAB>a fruit; to polish\<close>: the second
  definition is appended to the first, the files taken in the order of their letters.
\<close>

theorem apple_example:
  assumes "\<And>t. AMP \<notin> set t \<Longrightarrow> unescape t = t"
  shows "map_option (\<lambda>(status, fs'). (status, files fs' out_path))
           (main_extract unescape apple_fs [''xml''] out_path) =
         Some (0, Some (str ''apple'' @ [TAB] @ str ''a fruit; to polish'' @ [NL]))"
proof -
  have "main_extract unescape apple_fs [''xml''] out_path =
        main_extract (\<lambda>t. t) apple_fs [''xml''] out_path"
    using assms apple_fs_plain by (rule main_extract_plain)
  with apple_run show ?thesis by simp
qed

theorem apple_example_witness:
  "map_option (\<lambda>(status, fs'). (status, files fs' out_path))
     (main_extract (\<lambda>t. t) apple_fs [''xml''] out_path) =
   Some (0, Some (str ''apple'' @ [TAB] @ str ''a fruit; to polish'' @ [NL]))"
  using apple_example [of "\<lambda>t. t"] by simp

text \<open>
  C4.  The specification says that no headword is on two lines, also after the headword
  has been normalised for writing.  The keys of the dictionary are the headwords before
  that normalisation.  In \<open>two_spellings\<close> a headword is spelt once with a newline and
  once with a space: these are two keys, both are written as \<^verbatim>\<open>foo bar\<close>, and the output
  has two lines for one headword.
\<close>

theorem normalised_headwords_collide:
  assumes "\<And>t. AMP \<notin> set t \<Longrightarrow> unescape t = t"
  shows "map_option write_entries (process_file unescape two_spellings []) =
         Some (str ''foo bar'' @ [TAB] @ str ''one'' @ [NL] @
               str ''foo bar'' @ [TAB] @ str ''two'' @ [NL])"
proof -
  have "AMP \<notin> set two_spellings" by code_simp
  with assms have "process_file unescape two_spellings [] =
                   process_file (\<lambda>t. t) two_spellings []"
    by (rule process_file_plain)
  moreover have "map_option write_entries (process_file (\<lambda>t. t) two_spellings []) =
         Some (str ''foo bar'' @ [TAB] @ str ''one'' @ [NL] @
               str ''foo bar'' @ [TAB] @ str ''two'' @ [NL])"
    by code_simp
  ultimately show ?thesis by simp
qed

theorem normalised_headwords_collide_witness:
  "map_option write_entries (process_file (\<lambda>t. t) two_spellings []) =
   Some (str ''foo bar'' @ [TAB] @ str ''one'' @ [NL] @
         str ''foo bar'' @ [TAB] @ str ''two'' @ [NL])"
  using normalised_headwords_collide [of "\<lambda>t. t"] by simp

text \<open>
  C5, as amended.  In every file the extractor writes, each line is a headword, a tab, a
  definition and a newline, and neither field holds a tab or a newline.  What the merger
  writes is one line, ended by a newline, for each line it read, and none of these lines
  holds a newline; the merger leaves tabs where they are.
\<close>

theorem definition_fields_one_line:
  "(main_extract unescape fs xml_dir output_path = Some (0, fs') \<longrightarrow>
      (\<exists>rows. files fs' output_path = Some (concat (map (\<lambda>(h, d). h @ [TAB] @ d @ [NL]) rows)) \<and>
         list_all (\<lambda>(h, d). TAB \<notin> set h \<and> NL \<notin> set h \<and> TAB \<notin> set d \<and> NL \<notin> set d) rows)) \<and>
   (write_union (read_gcide_lines gcide_text) (read_char_lines char_text) =
      concat (map (\<lambda>l. l @ [NL])
        (read_gcide_lines gcide_text @ map tag_line (read_char_lines char_text))) \<and>
    list_all (\<lambda>l. NL \<notin> set l)
      (read_gcide_lines gcide_text @ map tag_line (read_char_lines char_text)))"
proof (intro conjI impI)
  assume "main_extract unescape fs xml_dir output_path = Some (0, fs')"
  from main_extract_success [OF this] obtain fs1 ps e
    where run: "process_files unescape fs1 ps [] = Some (Inr e)"
      and out: "files fs' output_path = Some (write_entries e)"
    by blast
  have "values_one_line []" by (simp add: values_one_line_def)
  with run have inv: "values_one_line e" by (rule process_files_one_line)
  let ?rows = "map (\<lambda>k. (hw_line k, the (map_of e k))) (sort (map fst e))"
  have "files fs' output_path = Some (concat (map (\<lambda>(h, d). h @ [TAB] @ d @ [NL]) ?rows))"
    using out by (simp only: write_entries_rows)
  moreover have "list_all (\<lambda>(h, d). TAB \<notin> set h \<and> NL \<notin> set h \<and> TAB \<notin> set d \<and> NL \<notin> set d) ?rows"
    unfolding list_all_iff using written_rows_one_line [OF inv] by blast
  ultimately show "\<exists>rows. files fs' output_path =
        Some (concat (map (\<lambda>(h, d). h @ [TAB] @ d @ [NL]) rows)) \<and>
      list_all (\<lambda>(h, d). TAB \<notin> set h \<and> NL \<notin> set h \<and> TAB \<notin> set d \<and> NL \<notin> set d) rows"
    by blast
next
  show "write_union (read_gcide_lines gcide_text) (read_char_lines char_text) =
      concat (map (\<lambda>l. l @ [NL])
        (read_gcide_lines gcide_text @ map tag_line (read_char_lines char_text)))"
    by (rule write_union_concat)
next
  have "\<And>l. no_break l \<Longrightarrow> NL \<notin> set l"
    using islinebreak_NL(1) by (auto simp: no_break_def list_all_iff)
  then show "list_all (\<lambda>l. NL \<notin> set l)
      (read_gcide_lines gcide_text @ map tag_line (read_char_lines char_text))"
    unfolding list_all_iff
    using read_gcide_lines_no_break read_char_lines_no_break tag_line_no_break by auto
qed

theorem definition_fields_one_line_witness:
  "(\<exists>rows. files (snd (the (main_extract (\<lambda>t. t) apple_fs [''xml''] out_path))) out_path =
        Some (concat (map (\<lambda>(h, d). h @ [TAB] @ d @ [NL]) rows)) \<and>
      list_all (\<lambda>(h, d). TAB \<notin> set h \<and> NL \<notin> set h \<and> TAB \<notin> set d \<and> NL \<notin> set d) rows) \<and>
   (write_union (read_gcide_lines dog_base) (read_char_lines dog_chars) =
      concat (map (\<lambda>l. l @ [NL])
        (read_gcide_lines dog_base @ map tag_line (read_char_lines dog_chars))) \<and>
    list_all (\<lambda>l. NL \<notin> set l)
      (read_gcide_lines dog_base @ map tag_line (read_char_lines dog_chars)))"
  using definition_fields_one_line
    [of "\<lambda>t. t" apple_fs "[''xml'']" out_path
        "snd (the (main_extract (\<lambda>t. t) apple_fs [''xml''] out_path))" dog_base dog_chars]
    apple_run_returns
  by blast

text \<open>
  C5 as it is stated fails for the merger: a supplementary line with two tabs is cut at
  the first one only, and the definition field of the line written holds the second
  tab.
\<close>

theorem merger_keeps_tab_in_definition:
  "TAB \<in> set (definition_field (hd (splitlines
     (write_union [] (read_char_lines (str ''dog'' @ [TAB] @ str ''a'' @ [TAB] @ str ''b'' @ [NL]))))))"
  by code_simp

text \<open>
  C6, as amended.  A headword \<open>h\<close> has a line in the base lexicon and a line that is
  not blank in the supplementary list, both taken from the texts once white space is
  stripped from the two ends of each whole text, which is how the merger reads them.
  Among the lines of the output, the base line stands unchanged at some index \<open>i\<close>, the
  supplementary line with the tag before its definition at a later index \<open>j\<close>, and the
  output has as many lines as the two inputs together: nothing is merged and nothing is
  dropped.
\<close>

theorem merger_keeps_both_lines:
  assumes "h @ TAB # d \<in> set (splitlines (strip gcide_text))"
    and "h @ TAB # d' \<in> set (splitlines (strip char_text))"
    and "strip (h @ TAB # d') \<noteq> []"
    and "TAB \<notin> set h"
  shows "\<exists>i j. i < j \<and>
           j < length (splitlines (write_union (read_gcide_lines gcide_text)
                                     (read_char_lines char_text))) \<and>
           splitlines (write_union (read_gcide_lines gcide_text)
                         (read_char_lines char_text)) ! i = h @ TAB # d \<and>
           splitlines (write_union (read_gcide_lines gcide_text)
                         (read_char_lines char_text)) ! j = h @ [TAB] @ CHAR_TAG @ d' \<and>
           length (splitlines (write_union (read_gcide_lines gcide_text)
                                 (read_char_lines char_text))) =
             length (splitlines (strip gcide_text)) +
             length (filter (\<lambda>ln. strip ln \<noteq> []) (splitlines (strip char_text)))"
proof -
  let ?gl = "read_gcide_lines gcide_text"
  let ?cl = "read_char_lines char_text"
  let ?out = "splitlines (write_union ?gl ?cl)"
  have out: "?out = ?gl @ map tag_line ?cl" by (rule union_lines)
  have g: "h @ TAB # d \<in> set ?gl" using assms(1) by (simp add: read_gcide_lines_def)
  have c: "h @ TAB # d' \<in> set ?cl" using assms(2,3) by (simp add: read_char_lines_def)
  from in_set_index [OF g] obtain i where i: "i < length ?gl" "?gl ! i = h @ TAB # d"
    by blast
  from in_set_index [OF c] obtain k where k: "k < length ?cl" "?cl ! k = h @ TAB # d'"
    by blast
  let ?j = "length ?gl + k"
  have "i < ?j" using i(1) by simp
  moreover have "?j < length ?out" using k(1) by (simp add: out)
  moreover have "?out ! i = h @ TAB # d" using i by (simp add: out nth_append)
  moreover have "?out ! ?j = h @ [TAB] @ CHAR_TAG @ d'"
    using k tag_line_split [OF assms(4), of d'] by (simp add: out nth_append)
  moreover have "length ?out = length (splitlines (strip gcide_text)) +
             length (filter (\<lambda>ln. strip ln \<noteq> []) (splitlines (strip char_text)))"
  proof -
    have "length ?out = length ?gl + length ?cl" by (simp add: out)
    then show ?thesis by (simp only: read_gcide_lines_def read_char_lines_def)
  qed
  ultimately show ?thesis by blast
qed

theorem merger_keeps_both_lines_witness:
  "\<exists>i j. i < j \<and>
     j < length (splitlines (write_union (read_gcide_lines dog_base) (read_char_lines dog_chars))) \<and>
     splitlines (write_union (read_gcide_lines dog_base) (read_char_lines dog_chars)) ! i =
       str ''dog'' @ TAB # str ''a canine'' \<and>
     splitlines (write_union (read_gcide_lines dog_base) (read_char_lines dog_chars)) ! j =
       str ''dog'' @ [TAB] @ CHAR_TAG @ str ''loyal companion of the hero'' \<and>
     length (splitlines (write_union (read_gcide_lines dog_base) (read_char_lines dog_chars))) =
       length (splitlines (strip dog_base)) +
       length (filter (\<lambda>ln. strip ln \<noteq> []) (splitlines (strip dog_chars)))"
proof -
  have a: "str ''dog'' @ TAB # str ''a canine'' \<in> set (splitlines (strip dog_base))"
    by code_simp
  have b: "str ''dog'' @ TAB # str ''loyal companion of the hero'' \<in> set (splitlines (strip dog_chars))"
    by code_simp
  have n: "strip (str ''dog'' @ TAB # str ''loyal companion of the hero'') \<noteq> []"
    by code_simp
  have c: "TAB \<notin> set (str ''dog'')" by code_simp
  show ?thesis using merger_keeps_both_lines [OF a b n c] .
qed

text \<open>
  C6 as it is stated fails at the ends of the base lexicon.  In \<open>dog_tab_base\<close> the
  headword \<^verbatim>\<open>dog\<close> has the line \<^verbatim>\<open>dog<TAB>\<close>, with an empty definition; \<^verbatim>\<open>strip()\<close> on the
  whole text takes the tab away, and the merger's \<^verbatim>\<open>main\<close> writes the base line as \<^verbatim>\<open>dog\<close>,
  not unchanged.
\<close>

theorem merger_trims_last_base_line:
  "splitlines dog_tab_base = [str ''dog'' @ [TAB]] \<and>
   fst (main_merge merge_argv [] dog_fs) = None \<and>
   files (snd (main_merge merge_argv [] dog_fs)) dog_out =
     Some (str ''dog'' @ [NL] @
           str ''dog'' @ [TAB] @ CHAR_TAG @ str ''loyal companion of the hero'' @ [NL])"
  by code_simp

text \<open>
  C7, as amended.  The lines of the output are the lines of the base lexicon once white
  space is stripped from both ends of its text, blank lines inside it included, followed
  by the lines of the stripped supplementary text that are not blank.  Of these, a line
  without a tab is written as it is, and a line with a tab gets the tag after its first
  tab.
\<close>

theorem merger_lines_of_stripped_texts:
  "splitlines (write_union (read_gcide_lines gcide_text) (read_char_lines char_text)) =
     splitlines (strip gcide_text) @
     map tag_line (filter (\<lambda>ln. strip ln \<noteq> []) (splitlines (strip char_text))) \<and>
   (TAB \<notin> set ln \<longrightarrow> tag_line ln = ln) \<and>
   (TAB \<notin> set h \<longrightarrow> tag_line (h @ TAB # d) = h @ [TAB] @ CHAR_TAG @ d)"
  using union_lines [of gcide_text char_text] tag_line_split [of h d]
  by (simp add: read_gcide_lines_def read_char_lines_def tag_line_def)

theorem merger_lines_of_stripped_texts_witness:
  "splitlines (write_union (read_gcide_lines (str ''a'' @ [NL, NL] @ str ''b''))
       (read_char_lines (str ''bob'' @ [NL, SP, NL] @ str ''eve'' @ [TAB] @ str ''spy''))) =
     [str ''a'', [], str ''b'', str ''bob'', str ''eve'' @ [TAB] @ CHAR_TAG @ str ''spy''] \<and>
   tag_line (str ''bob'') = str ''bob'' \<and>
   tag_line (str ''eve'' @ TAB # str ''spy'') = str ''eve'' @ [TAB] @ CHAR_TAG @ str ''spy''"
proof -
  have t: "TAB \<notin> set (str ''bob'')" by code_simp
  have u: "TAB \<notin> set (str ''eve'')" by code_simp
  have "splitlines (strip (str ''a'' @ [NL, NL] @ str ''b'')) @
     map tag_line (filter (\<lambda>ln. strip ln \<noteq> [])
       (splitlines (strip (str ''bob'' @ [NL, SP, NL] @ str ''eve'' @ [TAB] @ str ''spy'')))) =
     [str ''a'', [], str ''b'', str ''bob'', str ''eve'' @ [TAB] @ CHAR_TAG @ str ''spy'']"
    by code_simp
  with t u show ?thesis
    using merger_lines_of_stripped_texts
      [of "str ''a'' @ [NL, NL] @ str ''b''"
          "str ''bob'' @ [NL, SP, NL] @ str ''eve'' @ [TAB] @ str ''spy''"
          "str ''bob''" "str ''eve''" "str ''spy''"]
    by simp
qed

text \<open>
  C7 as it is stated fails at the ends of the base lexicon: \<^verbatim>\<open>strip()\<close> is applied to
  the whole text before it is split, so a blank first line of the base lexicon is not in
  the output.
\<close>

theorem base_blank_line_dropped:
  "splitlines (NL # dog_base) = [[], str ''dog'' @ [TAB] @ str ''a canine''] \<and>
   splitlines (write_union (read_gcide_lines (NL # dog_base)) (read_char_lines [])) =
     [str ''dog'' @ [TAB] @ str ''a canine'']"
  by code_simp

text \<open>
  C8.  The specification says that every fatal condition is detected before the
  destination is touched.  The extractor makes the directory of the output file between
  its two checks: on an input directory without letter files, and an output directory
  that does not exist yet, the run ends with status 1, writes no output file, and
  leaves the new directory \<^verbatim>\<open>out\<close> behind.  The merger makes its directory after all its
  checks.
\<close>

theorem output_directory_made_before_failure:
  "map_option (\<lambda>(status, fs'). (status, [''out''] \<in> dirs fs', files fs' out_path))
     (main_extract unescape empty_dir_fs [''xml''] out_path) = Some (1, True, None) \<and>
   [''out''] \<notin> dirs empty_dir_fs"
  by code_simp






end
